theory Spec2Isabelle
  imports Complex_Main "HOL-Library.Multiset" "HOL-Library.Log_Nat" "HOL-Library.Sublist"
begin

section \<open>Python values and operations the notebook relies on\<close>

text \<open>
  Faults of the notebook are values of \<open>error\<close>; a computation that may fault returns
  \<open>error + 'a\<close> with \<open>Inl\<close> for the fault.  Nothing in the notebook catches an
  exception, so the first fault ends the computation it occurs in.
\<close>

datatype error = ZeroDivisionError | OverflowError | IndexError | TypeError | ValueError
  | StopIteration

subsection \<open>Slices\<close>

text \<open>
  A slice bound \<open>k\<close> on a sequence of length \<open>len\<close>: a negative bound counts from
  the end, and every bound is clamped into \<open>0..len\<close>.
\<close>

definition slice_index :: "nat \<Rightarrow> int \<Rightarrow> nat" where
  "slice_index len k = (if k < 0 then nat (max 0 (int len + k)) else min len (nat k))"

text \<open>\<open>xs[:t]\<close>, \<open>xs[t:]\<close> and \<open>xs[lo:hi]\<close>.\<close>

definition slice_to :: "'a list \<Rightarrow> int \<Rightarrow> 'a list" where
  "slice_to xs t = take (slice_index (length xs) t) xs"

definition slice_from :: "'a list \<Rightarrow> int \<Rightarrow> 'a list" where
  "slice_from xs t = drop (slice_index (length xs) t) xs"

definition slice :: "'a list \<Rightarrow> int \<Rightarrow> int \<Rightarrow> 'a list" where
  "slice xs lo hi =
     (let l = slice_index (length xs) lo; h = slice_index (length xs) hi
      in take (h - l) (drop l xs))"

subsection \<open>Integer division\<close>

text \<open>
  \<open>divmod(a, b)\<close> on integers rounds the quotient towards minus infinity, as \<open>div\<close>
  and \<open>mod\<close> on \<open>int\<close> do, and raises when \<open>b\<close> is zero.
\<close>

definition py_divmod :: "int \<Rightarrow> int \<Rightarrow> error + int \<times> int" where
  "py_divmod a b = (if b = 0 then Inl ZeroDivisionError else Inr (a div b, a mod b))"

subsection \<open>Floats\<close>

text \<open>
  A Python float is an IEEE 754 binary64 number.  A finite float is modelled by the
  rational number it denotes.  \<open>round_double\<close> rounds a rational to the nearest
  float, a tie going to the even significand: the significand has 53 bits, so a number
  with binary exponent \<open>e\<close> is rounded to a multiple of \<open>2 ^ (e - 52)\<close>, and to a
  multiple of \<open>2 ^ (- 1074)\<close> in the subnormal range.  The exponent is not bounded above
  in \<open>round_double\<close>; a rounded value of magnitude \<open>2 ^ 1024\<close> or more stands for an
  overflow.  A float literal denotes the float nearest to its decimal value.
\<close>

definition pow2 :: "int \<Rightarrow> rat" where
  "pow2 k = (if 0 \<le> k then 2 ^ nat k else 1 / 2 ^ nat (- k))"

text \<open>The exponent \<open>e\<close> with \<open>2 ^ e \<le> a < 2 ^ (e + 1)\<close>, for a positive \<open>a\<close>.\<close>

definition ilog2 :: "rat \<Rightarrow> int" where
  "ilog2 a = (case quotient_of a of (n, d) \<Rightarrow>
     let k = bitlen n - bitlen d in if pow2 k \<le> a then k else k - 1)"

definition round_half_even :: "rat \<Rightarrow> int" where
  "round_half_even x =
     (let n = \<lfloor>x\<rfloor>; r = x - of_int n
      in if r < 1 / 2 then n else if 1 / 2 < r then n + 1 else if even n then n else n + 1)"

definition round_double :: "rat \<Rightarrow> rat" where
  "round_double q =
     (if q = 0 then 0
      else let a = \<bar>q\<bar>; p = max (ilog2 a - 52) (- 1074)
           in sgn q * of_int (round_half_even (a / pow2 p)) * pow2 p)"

definition float_overflows :: "rat \<Rightarrow> bool" where
  "float_overflows r \<longleftrightarrow> 2 ^ 1024 \<le> \<bar>r\<bar>"

text \<open>
  The result of a float operation on finite operands: a finite float or an infinity
  (the sign of an infinity plays no role below).
\<close>

datatype pyfloat = Finite rat | Infinity

text \<open>
  \<open>n * f\<close> for an integer \<open>n\<close> and a float \<open>f\<close>: the integer is converted to a
  float first (correctly rounded; \<open>OverflowError\<close> when it is too large), then the
  two floats are multiplied and the exact product is rounded once.
\<close>

definition float_of_int :: "int \<Rightarrow> error + rat" where
  "float_of_int n =
     (let r = round_double (of_int n) in if float_overflows r then Inl OverflowError else Inr r)"

definition float_mul :: "rat \<Rightarrow> rat \<Rightarrow> pyfloat" where
  "float_mul x y = (let r = round_double (x * y) in if float_overflows r then Infinity else Finite r)"

definition int_mul_float :: "int \<Rightarrow> rat \<Rightarrow> error + pyfloat" where
  "int_mul_float n f = (case float_of_int n of Inl e \<Rightarrow> Inl e | Inr x \<Rightarrow> Inr (float_mul x f))"

text \<open>\<open>int(x)\<close> truncates a finite float towards zero and raises on an infinity.\<close>

definition py_int :: "pyfloat \<Rightarrow> error + int" where
  "py_int x = (case x of Finite r \<Rightarrow> Inr (if 0 \<le> r then \<lfloor>r\<rfloor> else \<lceil>r\<rceil>) | Infinity \<Rightarrow> Inl OverflowError)"

section \<open>The dataset cell\<close>

text \<open>
  \<^verbatim>\<open>
  train_images, train_labels, test_images, test_labels = datasets.mnist()

  train_samples = train_images.shape[0]
  val_samples = int(train_samples * validation_split)
  train_samples -= val_samples

  train_images, val_images = train_images[:train_samples], train_images[train_samples:]
  train_labels, val_labels = train_labels[:train_samples], train_labels[train_samples:]

  num_complete_batches, leftover = divmod(train_samples, batch_size)
  num_batches = num_complete_batches + bool(leftover)
  \<close>
  The hyperparameters the cell reads, and the names it binds.  The notebook fixes
  \<open>batch_size = 256\<close> and \<open>validation_split = 0.2\<close>; they are parameters here.
  \<open>validation_split\<close> is a finite float.
\<close>

record hyper =
  batch_size :: int
  validation_split :: rat

record ('a, 'b) env = hyper +
  train_samples :: int
  val_samples :: int
  train_images :: "'a list"
  val_images :: "'a list"
  train_labels :: "'b list"
  val_labels :: "'b list"
  num_batches :: int

text \<open>
  The cell up to the definition of \<open>data_stream\<close>, on the training arrays
  \<open>datasets.mnist()\<close> returned: an array is the list of its rows, and
  \<open>train_images.shape[0]\<close> their number.  A fault anywhere in the cell is the result of
  the cell.
\<close>

definition dataset_cell :: "hyper \<Rightarrow> 'a list \<Rightarrow> 'b list \<Rightarrow> error + ('a, 'b) env" where
  "dataset_cell H images labels =
     (let n = int (length images) in
      (case int_mul_float n (validation_split H) of Inl e \<Rightarrow> Inl e | Inr x \<Rightarrow>
      (case py_int x of Inl e \<Rightarrow> Inl e | Inr v \<Rightarrow>
      (let t = n - v in
      (case py_divmod t (batch_size H) of Inl e \<Rightarrow> Inl e | Inr (num_complete_batches, leftover) \<Rightarrow>
        Inr \<lparr>batch_size = batch_size H, validation_split = validation_split H,
             train_samples = t, val_samples = v,
             train_images = slice_to images t, val_images = slice_from images t,
             train_labels = slice_to labels t, val_labels = slice_from labels t,
             num_batches = num_complete_batches + (if leftover \<noteq> 0 then 1 else 0)\<rparr>)))))"

section \<open>The batch generator\<close>

text \<open>
  \<^verbatim>\<open>
  def data_stream():
      rng = npr.RandomState(0)
      while True:
          perm = rng.permutation(train_samples)
          for i in range(num_batches):
              batch_idx = perm[i * batch_size : (i + 1) * batch_size]
              yield train_images[batch_idx], train_labels[batch_idx]
  \<close>
  \<open>numpy.random\<close> is not part of the notebook: \<open>npr.RandomState(seed)\<close> and the
  method \<open>permutation\<close> are parameters of the model.  The state of a random
  generator is a value of \<open>'s\<close>; \<open>permutation\<close> returns the array it drew and the
  state it left the random generator in.
\<close>

record 's rng_lib =
  RandomState :: "int \<Rightarrow> 's"
  permutation :: "'s \<Rightarrow> int \<Rightarrow> nat list \<times> 's"

text \<open>
  What the library promises of \<open>permutation(n)\<close>: a rearrangement of
  \<open>0, \<dots>, n - 1\<close>.
\<close>

definition permutes :: "'s rng_lib \<Rightarrow> bool" where
  "permutes R \<longleftrightarrow> (\<forall>s n. 0 \<le> n \<longrightarrow> mset (fst (permutation R s n)) = mset [0..<nat n])"

text \<open>
  \<open>arr[batch_idx]\<close> for an array of non-negative indices: the rows at these
  indices, in their order; an index past the last row raises.
\<close>

definition take_rows :: "'a list \<Rightarrow> nat list \<Rightarrow> error + 'a list" where
  "take_rows arr idx =
     (if list_all (\<lambda>j. j < length arr) idx then Inr (map (nth arr) idx) else Inl IndexError)"

text \<open>The index chunk of loop index \<open>i\<close>, and the pair the generator yields for it.\<close>

definition batch_idx :: "('a, 'b) env \<Rightarrow> nat list \<Rightarrow> nat \<Rightarrow> nat list" where
  "batch_idx E perm i = slice perm (int i * batch_size E) ((int i + 1) * batch_size E)"

definition yield_value :: "('a, 'b) env \<Rightarrow> nat list \<Rightarrow> nat \<Rightarrow> error + 'a list \<times> 'b list" where
  "yield_value E perm i =
     (case take_rows (train_images E) (batch_idx E perm i) of Inl e \<Rightarrow> Inl e | Inr x \<Rightarrow>
     (case take_rows (train_labels E) (batch_idx E perm i) of Inl e \<Rightarrow> Inl e | Inr y \<Rightarrow>
        Inr (x, y)))"

text \<open>
  A generator object is \<open>Created\<close> until its first \<open>next\<close>, then suspended at the
  \<open>yield\<close> with its local variables \<open>rng\<close>, \<open>perm\<close> and \<open>i\<close>, and \<open>Finished\<close>
  once an exception has left its body.
\<close>

datatype 's generator = Created | Suspended 's "nat list" nat | Finished

definition data_stream :: "'s generator" where
  "data_stream = Created"

text \<open>
  Reaching the \<open>yield\<close> at loop index \<open>i\<close>: the value goes to the caller and the
  generator suspends, or the fault of the indexing goes to the caller and the generator
  is finished.
\<close>

definition at_yield ::
  "('a, 'b) env \<Rightarrow> 's \<Rightarrow> nat list \<Rightarrow> nat \<Rightarrow> (error + 'a list \<times> 'b list) \<times> 's generator" where
  "at_yield E rng perm i =
     (case yield_value E perm i of Inl e \<Rightarrow> (Inl e, Finished)
      | Inr b \<Rightarrow> (Inr b, Suspended rng perm i))"

text \<open>
  The body from the top of \<open>while True\<close>: a permutation is drawn, and the \<open>for\<close>
  loop yields at index 0 when \<open>range(num_batches)\<close> is not empty; when it is empty the
  \<open>while\<close> loop goes round again.  \<open>None\<close> stands for a \<open>next\<close> that never
  returns.
\<close>

partial_function (option) while_true ::
  "'s rng_lib \<Rightarrow> ('a, 'b) env \<Rightarrow> 's \<Rightarrow> ((error + 'a list \<times> 'b list) \<times> 's generator) option" where
  [code]: "while_true R E rng =
     (case permutation R rng (train_samples E) of (perm, rng') \<Rightarrow>
        if 0 < num_batches E then Some (at_yield E rng' perm 0) else while_true R E rng')"

text \<open>\<open>next(g)\<close>: the generator runs to its next \<open>yield\<close>.\<close>

definition next_batch ::
  "'s rng_lib \<Rightarrow> ('a, 'b) env \<Rightarrow> 's generator \<Rightarrow> ((error + 'a list \<times> 'b list) \<times> 's generator) option" where
  "next_batch R E g =
     (case g of
        Created \<Rightarrow> while_true R E (RandomState R 0)
      | Suspended rng perm i \<Rightarrow>
          if int i + 1 < num_batches E then Some (at_yield E rng perm (i + 1))
          else while_true R E rng
      | Finished \<Rightarrow> Some (Inl StopIteration, Finished))"

text \<open>\<open>n\<close> calls of \<open>next\<close> in a row, with the values they return.\<close>

fun next_batches ::
  "'s rng_lib \<Rightarrow> ('a, 'b) env \<Rightarrow> nat \<Rightarrow> 's generator \<Rightarrow>
     ((error + 'a list \<times> 'b list) list \<times> 's generator) option" where
  "next_batches R E 0 g = Some ([], g)"
| "next_batches R E (Suc n) g =
     (case next_batch R E g of None \<Rightarrow> None | Some (out, g') \<Rightarrow>
     (case next_batches R E n g' of None \<Rightarrow> None | Some (outs, g'') \<Rightarrow>
        Some (out # outs, g'')))"

text \<open>The batch with number \<open>n\<close> (from 0) of a new generator.\<close>

definition nth_batch ::
  "'s rng_lib \<Rightarrow> ('a, 'b) env \<Rightarrow> nat \<Rightarrow> (error + 'a list \<times> 'b list) option" where
  "nth_batch R E n = map_option (\<lambda>(outs, g). last outs) (next_batches R E (Suc n) data_stream)"

subsection \<open>The stream in closed form\<close>

text \<open>
  A generator starts from \<open>RandomState(0)\<close> and draws once per pass:
  \<open>rng_after R n e\<close> is its random state after \<open>e\<close> draws of \<open>permutation(n)\<close>,
  and \<open>epoch_perm R n e\<close> the permutation of pass \<open>e\<close>.
\<close>

primrec rng_after :: "'s rng_lib \<Rightarrow> int \<Rightarrow> nat \<Rightarrow> 's" where
  "rng_after R n 0 = RandomState R 0"
| "rng_after R n (Suc e) = snd (permutation R (rng_after R n e) n)"

definition epoch_perm :: "'s rng_lib \<Rightarrow> int \<Rightarrow> nat \<Rightarrow> nat list" where
  "epoch_perm R n e = fst (permutation R (rng_after R n e) n)"

text \<open>
  The value batch number \<open>m\<close> is computed from, and the generator after \<open>m\<close>
  batches, when there are \<open>num_batches > 0\<close> batches to a pass.
\<close>

definition stream_value :: "'s rng_lib \<Rightarrow> ('a, 'b) env \<Rightarrow> nat \<Rightarrow> error + 'a list \<times> 'b list" where
  "stream_value R E m =
     yield_value E (epoch_perm R (train_samples E) (m div nat (num_batches E)))
       (m mod nat (num_batches E))"

definition stream_state :: "'s rng_lib \<Rightarrow> ('a, 'b) env \<Rightarrow> nat \<Rightarrow> 's generator" where
  "stream_state R E m =
     (case m of 0 \<Rightarrow> Created
      | Suc k \<Rightarrow> Suspended (rng_after R (train_samples E) (Suc (k div nat (num_batches E))))
          (epoch_perm R (train_samples E) (k div nat (num_batches E))) (k mod nat (num_batches E)))"

subsection \<open>Several generators in one notebook session\<close>







subsection \<open>A small generator library for examples\<close>

text \<open>
  A stand-in for \<open>numpy.random\<close> in examples: the state counts the draws, and the
  \<open>k\<close>-th draw rotates \<open>0, \<dots>, n - 1\<close> by \<open>k\<close> places.
\<close>

definition rotating :: "nat rng_lib" where
  "rotating = \<lparr>RandomState = (\<lambda>seed. nat seed), permutation = (\<lambda>s n. (rotate (Suc s) [0..<nat n], Suc s))\<rparr>"

section \<open>Loss and accuracy\<close>














subsection \<open>The network\<close>

text \<open>
  \<^verbatim>\<open>
  def forward_pass(x):
      model = hk.Sequential([
          hk.Linear(300), jax.nn.relu,
          hk.Linear(100), jax.nn.relu,
          hk.Linear(10), jax.nn.log_softmax,
      ])
      return model(x)

  network = hk.without_apply_rng(hk.transform(forward_pass))
  \<close>
  \<open>jax.nn.relu\<close> is the entrywise maximum with 0, and \<open>jax.nn.log_softmax\<close> shifts
  every row by its largest entry and subtracts the logarithm of the sum of the
  exponentials of the shifted row.  The three \<open>hk.Linear\<close> modules, which Haiku names
  \<open>linear\<close>, \<open>linear_1\<close> and \<open>linear_2\<close>, are the parameters \<open>lin\<close>, \<open>lin_1\<close> and
  \<open>lin_2\<close>: each maps the parameter set and an array to an array.  \<open>network.apply(params, x)\<close> runs \<open>forward_pass(x)\<close> with
  the modules reading \<open>params\<close>.
\<close>

definition relu :: "real list list \<Rightarrow> real list list" where
  "relu A = map (map (\<lambda>v. max v 0)) A"

definition log_softmax_row :: "real list \<Rightarrow> real list" where
  "log_softmax_row row =
     (let shifted = map (\<lambda>v. v - Max (set row)) row
      in map (\<lambda>v. v - ln (sum_list (map exp shifted))) shifted)"

definition log_softmax :: "real list list \<Rightarrow> real list list" where
  "log_softmax A = map log_softmax_row A"

definition forward_pass ::
  "('p \<Rightarrow> real list list \<Rightarrow> real list list) \<Rightarrow> ('p \<Rightarrow> real list list \<Rightarrow> real list list) \<Rightarrow>
   ('p \<Rightarrow> real list list \<Rightarrow> real list list) \<Rightarrow> 'p \<Rightarrow> real list list \<Rightarrow> real list list" where
  "forward_pass lin lin_1 lin_2 params x =
     log_softmax (lin_2 params (relu (lin_1 params (relu (lin params x)))))"



subsection \<open>The two metrics as the specification words them\<close>




text \<open>A one-hot row: entries 0 and 1 only, with a single 1.\<close>

definition one_hot :: "real list \<Rightarrow> bool" where
  "one_hot row \<longleftrightarrow> list_all (\<lambda>v. v = 0 \<or> v = 1) row \<and> sum_list row = 1"


subsection \<open>Calls in the notebook's state\<close>




section \<open>A small dataset for examples\<close>

text \<open>
  Four samples with batch size 2 and a validation fraction of a quarter: one sample is
  held out, and a pass over the other three takes two batches.
\<close>

definition example_hyper :: hyper where
  "example_hyper = \<lparr>batch_size = 2, validation_split = 1 / 4\<rparr>"

definition example_env :: "(nat, nat) env" where
  "example_env =
     \<lparr>batch_size = 2, validation_split = 1 / 4, train_samples = 3, val_samples = 1,
      train_images = [10, 11, 12], val_images = [13],
      train_labels = [20, 21, 22], val_labels = [23], num_batches = 2\<rparr>"

section \<open>Properties of the operations\<close>

subsection \<open>Rounding to a float\<close>

lemma round_half_even_ge: "\<lfloor>x\<rfloor> \<le> round_half_even x"
  by (simp add: round_half_even_def Let_def)

lemma round_half_even_le: "round_half_even x \<le> \<lceil>x\<rceil>"
  unfolding round_half_even_def Let_def by (simp add: ceiling_altdef)

lemma round_half_even_error: "\<bar>of_int (round_half_even x) - x\<bar> \<le> 1 / 2"
  unfolding round_half_even_def Let_def by (auto simp: abs_if) linarith+

lemma pow2_power_int: "pow2 k = 2 powi k"
  by (simp add: pow2_def power_int_def inverse_eq_divide power_one_over)

lemma pow2_diff_nat: "pow2 (int i - int j) = 2 ^ i / 2 ^ j"
  by (simp add: pow2_power_int power_int_diff)

text \<open>
  \<open>ilog2\<close> is the binary exponent: \<open>2 ^ ilog2 a \<le> a < 2 ^ (ilog2 a + 1)\<close>.
\<close>

lemma ilog2_bounds:
  assumes "0 < a"
  shows "pow2 (ilog2 a) \<le> a \<and> a < pow2 (ilog2 a + 1)"
proof -
  obtain n d where nd: "quotient_of a = (n, d)" by (cases "quotient_of a")
  have d: "0 < d" using nd by (rule quotient_of_denom_pos)
  have a: "a = of_int n / of_int d" using nd by (rule quotient_of_div)
  have n: "0 < n" using assms d a by (simp add: zero_less_divide_iff)
  define i where "i = nat (bitlen n)"
  define j where "j = nat (bitlen d)"
  have bl: "bitlen n = int i" "bitlen d = int j"
    unfolding i_def j_def by (simp_all only: nat_0_le [OF bitlen_nonneg])
  have i: "0 < i" and j: "0 < j"
    using n d bitlen_eq_zero_iff [of n] bitlen_eq_zero_iff [of d] bl
    by simp_all
  have nb: "2 ^ (i - 1) \<le> n" "n < 2 ^ i" and db: "2 ^ (j - 1) \<le> d" "d < 2 ^ j"
    using bitlen_bounds [OF n] bitlen_bounds [OF d] i j
    by (simp_all add: bl nat_diff_distrib)
  have nr: "(2::rat) ^ (i - 1) \<le> of_int n" "(of_int n :: rat) < 2 ^ i"
    and dr: "(2::rat) ^ (j - 1) \<le> of_int d" "(of_int d :: rat) < 2 ^ j"
    using nb db by (simp_all flip: of_int_le_iff of_int_less_iff add: )
  have dpos: "(0::rat) < of_int d" using d by simp
  have lower: "pow2 (int i - int j - 1) \<le> a"
  proof -
    have "pow2 (int i - int j - 1) = 2 ^ (i - 1) / 2 ^ j"
      using pow2_diff_nat [of "i - 1" j] i by (simp add: of_nat_diff algebra_simps)
    also have "\<dots> \<le> of_int n / 2 ^ j" using nr(1) by (simp add: divide_right_mono)
    also have "\<dots> \<le> of_int n / of_int d"
      using dr(2) dpos n by (intro divide_left_mono) (simp_all add: less_imp_le)
    finally show ?thesis by (simp add: a)
  qed
  have upper: "a < pow2 (int i - int j + 1)"
  proof -
    have "a = of_int n / of_int d" by (rule a)
    also have "\<dots> < 2 ^ i / of_int d" using nr(2) dpos by (simp add: divide_strict_right_mono)
    also have "\<dots> \<le> 2 ^ i / 2 ^ (j - 1)"
      using dr(1) dpos by (intro divide_left_mono) simp_all
    also have "\<dots> = pow2 (int i - int j + 1)"
      using pow2_diff_nat [of i "j - 1"] j by (simp add: of_nat_diff algebra_simps)
    finally show ?thesis .
  qed
  show ?thesis
  proof (cases "pow2 (int i - int j) \<le> a")
    case True
    then have "ilog2 a = int i - int j" using nd by (simp add: ilog2_def bl)
    then show ?thesis using True upper by simp
  next
    case False
    then have "ilog2 a = int i - int j - 1" using nd by (simp add: ilog2_def bl)
    then show ?thesis using False lower by simp
  qed
qed

lemma ilog2_le:
  assumes "0 < a" "a < 2 ^ 53"
  shows "ilog2 a \<le> 52"
proof -
  obtain n d where nd: "quotient_of a = (n, d)" by (cases "quotient_of a")
  have d: "0 < d" using nd by (rule quotient_of_denom_pos)
  have a: "a = of_int n / of_int d" using nd by (rule quotient_of_div)
  have n: "0 < n" using assms(1) d a by (simp add: zero_less_divide_iff)
  let ?k = "bitlen n - bitlen d"
  show ?thesis
  proof (cases "pow2 ?k \<le> a")
    case True
    have "?k \<le> 52"
    proof (rule ccontr)
      assume "\<not> ?k \<le> 52"
      then have k: "53 \<le> ?k" by simp
      then have "(2::rat) ^ 53 \<le> 2 ^ nat ?k" by (intro power_increasing) auto
      also have "\<dots> = pow2 ?k" using k by (simp add: pow2_def)
      finally show False using True assms(2) by simp
    qed
    then show ?thesis using True nd by (simp add: ilog2_def)
  next
    case False
    have "of_int n < (2::rat) ^ 53 * of_int d"
      using assms(2) d a by (simp add: pos_divide_less_eq)
    then have "n < 2 ^ 53 * d"
      by (metis of_int_less_iff of_int_mult of_int_numeral of_int_power)
    also have "d < 2 ^ nat (bitlen d)" using bitlen_bounds [OF d] by simp
    finally have "n < 2 ^ (53 + nat (bitlen d))" by (simp add: power_add)
    then have "bitlen n \<le> 53 + bitlen d"
      using bitlen_le_iff_power [of n "53 + bitlen d"] bitlen_nonneg [of d]
      by (simp add: nat_add_distrib)
    then show ?thesis using False nd by (simp add: ilog2_def)
  qed
qed

text \<open>
  Below \<open>2 ^ 53\<close> every integer is a float, so rounding never crosses an integer: the
  rounded value lies between the floor and the ceiling of the exact one.
\<close>

lemma round_double_bounds:
  assumes "0 \<le> q" "q < 2 ^ 53"
  shows "of_int \<lfloor>q\<rfloor> \<le> round_double q \<and> round_double q \<le> of_int \<lceil>q\<rceil>"
proof (cases "q = 0")
  case True
  then show ?thesis by (simp add: round_double_def)
next
  case False
  then have q: "0 < q" using assms(1) by simp
  define p where "p = max (ilog2 q - 52) (- 1074)"
  have p: "p \<le> 0" using ilog2_le [OF q assms(2)] by (simp add: p_def)
  define m where "m = nat (- p)"
  have pw: "pow2 p = 1 / 2 ^ m"
    using p by (auto simp: pow2_def m_def)
  have rd: "round_double q = of_int (round_half_even (q * 2 ^ m)) / 2 ^ m"
    using q False by (simp add: round_double_def Let_def p_def [symmetric] pw)
  have "of_int \<lfloor>q\<rfloor> * (2::rat) ^ m \<le> q * 2 ^ m" by simp
  then have "\<lfloor>q\<rfloor> * 2 ^ m \<le> \<lfloor>q * 2 ^ m\<rfloor>"
    by (simp add: le_floor_iff)
  then have lo: "\<lfloor>q\<rfloor> * 2 ^ m \<le> round_half_even (q * 2 ^ m)"
    using round_half_even_ge [of "q * 2 ^ m"] by linarith
  have "q * 2 ^ m \<le> of_int \<lceil>q\<rceil> * (2::rat) ^ m" by simp
  then have "\<lceil>q * 2 ^ m\<rceil> \<le> \<lceil>q\<rceil> * 2 ^ m"
    by (simp add: ceiling_le_iff)
  then have hi: "round_half_even (q * 2 ^ m) \<le> \<lceil>q\<rceil> * 2 ^ m"
    using round_half_even_le [of "q * 2 ^ m"] by linarith
  have "of_int \<lfloor>q\<rfloor> \<le> (of_int (round_half_even (q * 2 ^ m)) :: rat) / 2 ^ m"
    using lo by (simp add: pos_le_divide_eq) (metis of_int_le_iff of_int_mult of_int_numeral of_int_power)
  moreover have "(of_int (round_half_even (q * 2 ^ m)) :: rat) / 2 ^ m \<le> of_int \<lceil>q\<rceil>"
    using hi by (simp add: pos_divide_le_eq) (metis of_int_le_iff of_int_mult of_int_numeral of_int_power)
  ultimately show ?thesis by (simp add: rd)
qed

text \<open>
  The rounded value is within half a unit in the last place of the exact one.
\<close>

lemma round_double_error:
  assumes "q \<noteq> 0"
  shows "\<bar>round_double q - q\<bar> \<le> pow2 (max (ilog2 \<bar>q\<bar> - 52) (- 1074)) / 2"
proof -
  define p where "p = max (ilog2 \<bar>q\<bar> - 52) (- 1074)"
  define m where "m = round_half_even (\<bar>q\<bar> / pow2 p)"
  have pp: "0 < pow2 p" by (simp add: pow2_def)
  have "\<bar>round_double q - q\<bar> = \<bar>sgn q * (of_int m * pow2 p - \<bar>q\<bar>)\<bar>"
    using assms by (simp add: round_double_def Let_def p_def m_def algebra_simps flip: abs_sgn)
       (metis mult.commute mult_sgn_abs)
  also have "\<dots> = \<bar>of_int m * pow2 p - \<bar>q\<bar>\<bar>"
    using assms by (simp add: abs_mult abs_sgn_eq)
  also have "\<dots> = \<bar>(of_int m - \<bar>q\<bar> / pow2 p) * pow2 p\<bar>"
    using pp by (simp add: left_diff_distrib)
  also have "\<dots> = \<bar>of_int m - \<bar>q\<bar> / pow2 p\<bar> * pow2 p"
    using pp by (simp add: abs_mult)
  also have "\<dots> \<le> 1 / 2 * pow2 p"
    using round_half_even_error [of "\<bar>q\<bar> / pow2 p"] pp
    by (intro mult_right_mono) (simp_all add: m_def)
  finally show ?thesis by (simp add: p_def)
qed

lemma not_overflow: "\<bar>r\<bar> \<le> 2 ^ 53 \<Longrightarrow> \<not> float_overflows r"
proof -
  assume "\<bar>r\<bar> \<le> 2 ^ 53"
  moreover have "(2::rat) ^ 53 < 2 ^ 1024" by (rule power_strict_increasing) auto
  ultimately show ?thesis unfolding float_overflows_def by linarith
qed

lemma float_of_int_exact:
  assumes "0 \<le> n" "n < 2 ^ 53"
  shows "float_of_int n = Inr (of_int n)"
proof -
  have q: "(0::rat) \<le> of_int n" "(of_int n :: rat) < 2 ^ 53"
    using assms by simp_all
  have "round_double (of_int n) = of_int n"
    using round_double_bounds [OF q] by simp
  moreover have "\<not> float_overflows (of_int n)"
    using q by (intro not_overflow) simp
  ultimately show ?thesis by (simp add: float_of_int_def)
qed

lemma int_of_product:
  assumes "0 \<le> n" "n < 2 ^ 53" "0 \<le> f" "f \<le> 1"
  defines "v \<equiv> \<lfloor>round_double (of_int n * f)\<rfloor>"
  shows "int_mul_float n f = Inr (Finite (round_double (of_int n * f)))"
    and "py_int (Finite (round_double (of_int n * f))) = Inr v"
    and "\<lfloor>of_int n * f\<rfloor> \<le> v" and "v \<le> \<lfloor>of_int n * f\<rfloor> + 1" and "0 \<le> v" and "v \<le> n"
proof -
  let ?q = "of_int n * f"
  have n: "(0::rat) \<le> of_int n" "(of_int n :: rat) < 2 ^ 53"
    using assms by simp_all
  have q0: "0 \<le> ?q" using n assms by simp
  have qn: "?q \<le> of_int n" using n assms by (simp add: mult_left_le)
  then have q: "?q < 2 ^ 53" using n by linarith
  note b = round_double_bounds [OF q0 q]
  have fl0: "0 \<le> \<lfloor>?q\<rfloor>" using q0 by simp
  have r0: "0 \<le> round_double ?q" using b fl0 by (meson of_int_0_le_iff order_trans)
  have cn: "\<lceil>?q\<rceil> \<le> n" using qn by (simp add: ceiling_le_iff)
  have rn: "round_double ?q \<le> of_int n"
    using b cn by (meson of_int_le_iff order_trans)
  have "\<not> float_overflows (round_double ?q)"
    using r0 rn n by (intro not_overflow) simp
  then show "int_mul_float n f = Inr (Finite (round_double ?q))"
    using float_of_int_exact [OF assms(1,2)] by (simp add: int_mul_float_def float_mul_def)
  show "py_int (Finite (round_double ?q)) = Inr v"
    using r0 by (simp add: py_int_def v_def)
  show "\<lfloor>?q\<rfloor> \<le> v" unfolding v_def using b by (simp add: le_floor_iff)
  have "v \<le> \<lceil>?q\<rceil>" unfolding v_def using b by (simp add: floor_le_iff)
  then show "v \<le> \<lfloor>?q\<rfloor> + 1" by (simp add: ceiling_altdef split: if_splits)
  show "0 \<le> v" unfolding v_def using r0 by simp
  show "v \<le> n" unfolding v_def using rn by (simp add: floor_le_iff) 
qed

text \<open>
  The floats of the literals \<open>0.2\<close> and \<open>0.3333333333333333\<close>, and the float
  products used in the examples, by evaluation.
\<close>

lemma float_literals:
  "round_double (1 / 5) = 3602879701896397 / 18014398509481984"
  "round_double (3333333333333333 / 10000000000000000) = 6004799503160661 / 18014398509481984"
  by code_simp+



lemma round_double_one: "round_double 1 = 1"
  by code_simp

lemma round_double_mnist: "round_double (6755399441055744375 / 562949953421312) = 12000"
  by code_simp

subsection \<open>Slices and the dataset cell\<close>

lemma slice_to_from: "slice_to xs t @ slice_from xs t = xs"
  by (simp add: slice_to_def slice_from_def)

lemma slice_index_of_nat: "slice_index len (int k) = min len k"
  by (simp add: slice_index_def)

lemma slice_index_in_range: "0 \<le> t \<Longrightarrow> t \<le> int len \<Longrightarrow> slice_index len t = nat t"
  by (simp add: slice_index_def)

lemma set_slice_subset: "set (slice xs lo hi) \<subseteq> set xs"
  unfolding slice_def Let_def
  by (meson set_drop_subset set_take_subset subset_trans)

text \<open>
  For a validation fraction between 0 and 1 the cell does not fault (unless the batch
  size is 0), \<open>val_samples\<close> lies between 0 and the number of samples, and both
  slices cut the source at \<open>train_samples\<close>.
\<close>

lemma dataset_cell_valid:
  assumes b: "batch_size H \<noteq> 0"
    and f: "0 \<le> validation_split H" "validation_split H \<le> 1"
    and n: "length images < 2 ^ 53"
  defines "v \<equiv> \<lfloor>round_double (of_nat (length images) * validation_split H)\<rfloor>"
  defines "t \<equiv> int (length images) - v"
  shows "dataset_cell H images labels =
      Inr \<lparr>batch_size = batch_size H, validation_split = validation_split H,
        train_samples = t, val_samples = v,
        train_images = take (nat t) images, val_images = drop (nat t) images,
        train_labels = slice_to labels t, val_labels = slice_from labels t,
        num_batches = t div batch_size H + (if t mod batch_size H \<noteq> 0 then 1 else 0)\<rparr>"
    and "\<lfloor>of_nat (length images) * validation_split H\<rfloor> \<le> v"
    and "v \<le> \<lfloor>of_nat (length images) * validation_split H\<rfloor> + 1"
    and "0 \<le> v" and "v \<le> int (length images)"
proof -
  have n': "0 \<le> int (length images)" "int (length images) < 2 ^ 53"
    using n by simp_all
  note p = int_of_product [OF n' f]
  show v: "0 \<le> v" "v \<le> int (length images)"
    and "\<lfloor>of_nat (length images) * validation_split H\<rfloor> \<le> v"
    and "v \<le> \<lfloor>of_nat (length images) * validation_split H\<rfloor> + 1"
    using p(3-6) by (simp_all add: v_def)
  then have t: "0 \<le> t" "t \<le> int (length images)" by (simp_all add: t_def)
  have "slice_to images t = take (nat t) images" "slice_from images t = drop (nat t) images"
    using t by (simp_all add: slice_to_def slice_from_def slice_index_in_range)
  then show "dataset_cell H images labels =
      Inr \<lparr>batch_size = batch_size H, validation_split = validation_split H,
        train_samples = t, val_samples = v,
        train_images = take (nat t) images, val_images = drop (nat t) images,
        train_labels = slice_to labels t, val_labels = slice_from labels t,
        num_batches = t div batch_size H + (if t mod batch_size H \<noteq> 0 then 1 else 0)\<rparr>"
    using p(1,2) b
    by (simp add: dataset_cell_def Let_def py_divmod_def v_def [symmetric] t_def [symmetric])
qed

lemma env_of_cell:
  assumes "dataset_cell H images labels = Inr E"
    and "batch_size H \<noteq> 0" and "0 \<le> validation_split H" and "validation_split H \<le> 1"
    and "length images < 2 ^ 53" and "length labels = length images"
  shows "batch_size E = batch_size H"
    and "0 \<le> train_samples E"
    and "length (train_images E) = nat (train_samples E)"
    and "length (train_labels E) = nat (train_samples E)"
    and "num_batches E = train_samples E div batch_size E
          + (if train_samples E mod batch_size E \<noteq> 0 then 1 else 0)"
proof -
  define v where "v = \<lfloor>round_double (of_nat (length images) * validation_split H)\<rfloor>"
  define t where "t = int (length images) - v"
  note c = dataset_cell_valid(2-5) [OF assms(2-5), folded v_def]
  have t: "0 \<le> t" "t \<le> int (length images)" using c(3,4) by (simp_all add: t_def)
  have E: "E = \<lparr>batch_size = batch_size H, validation_split = validation_split H,
        train_samples = t, val_samples = v,
        train_images = take (nat t) images, val_images = drop (nat t) images,
        train_labels = slice_to labels t, val_labels = slice_from labels t,
        num_batches = t div batch_size H + (if t mod batch_size H \<noteq> 0 then 1 else 0)\<rparr>"
    using assms(1) dataset_cell_valid(1) [OF assms(2-5), of labels]
    by (simp add: v_def t_def)
  show "batch_size E = batch_size H" "0 \<le> train_samples E"
    "num_batches E = train_samples E div batch_size E
          + (if train_samples E mod batch_size E \<noteq> 0 then 1 else 0)"
    using t by (simp_all add: E)
  show "length (train_images E) = nat (train_samples E)"
    "length (train_labels E) = nat (train_samples E)"
    using t assms(6) by (simp_all add: E slice_to_def slice_index_in_range)
qed

text \<open>
  The notebook's own numbers: the 60000 training samples of MNIST with
  \<open>validation_split = 0.2\<close> and \<open>batch_size = 256\<close> give 12000 validation samples,
  48000 training samples and 188 batches to a pass.
\<close>

lemma notebook_split:
  assumes "length images = 60000" and "length labels = 60000"
  shows "\<exists>E. dataset_cell \<lparr>batch_size = 256, validation_split = round_double (1 / 5)\<rparr>
          images labels = Inr E
    \<and> val_samples E = 12000 \<and> train_samples E = 48000 \<and> num_batches E = 188
    \<and> length (train_images E) = 48000 \<and> length (val_images E) = 12000"
proof -
  let ?H = "\<lparr>batch_size = 256, validation_split = 3602879701896397 / 18014398509481984\<rparr>"
  have "length images < 2 ^ 53" using assms(1) by simp
  then have "dataset_cell ?H images labels =
      Inr \<lparr>batch_size = 256, validation_split = 3602879701896397 / 18014398509481984,
        train_samples = 48000, val_samples = 12000,
        train_images = take 48000 images, val_images = drop 48000 images,
        train_labels = slice_to labels 48000, val_labels = slice_from labels 48000,
        num_batches = 188\<rparr>"
    using dataset_cell_valid(1) [of ?H images labels] assms(1)
    by (simp add: round_double_mnist)
  then show ?thesis using assms(1) by (simp add: float_literals)
qed

lemma example_cell:
  "dataset_cell example_hyper [10, 11, 12, 13] [20, 21, 22, 23] = Inr example_env"
  using dataset_cell_valid(1) [of example_hyper "[10, 11, 12, 13 :: nat]" "[20, 21, 22, 23 :: nat]"]
  by (simp add: example_hyper_def example_env_def round_double_one slice_to_def slice_from_def
      slice_index_def)

lemma num_batches_ceiling:
  fixes n b :: int
  assumes "0 < b"
  shows "n div b + (if n mod b \<noteq> 0 then 1 else 0) = \<lceil>(of_int n :: rat) / of_int b\<rceil>"
proof -
  have "\<lceil>(of_int n :: rat) / of_int b\<rceil> = - \<lfloor>(of_int (- n) :: rat) / of_int b\<rfloor>"
    by (simp add: ceiling_def)
  also have "\<dots> = - ((- n) div b)"
    by (simp only: floor_divide_of_int_eq)
  also have "\<dots> = n div b + (if n mod b \<noteq> 0 then 1 else 0)"
    using assms by (simp add: zdiv_zminus1_eq_if)
  finally show ?thesis by simp
qed

lemma num_batches_nat:
  assumes "0 \<le> t" "0 < b"
  shows "nat (t div b + (if t mod b \<noteq> 0 then 1 else 0))
    = nat t div nat b + (if nat t mod nat b \<noteq> 0 then 1 else 0)"
proof -
  obtain n B where nB: "t = int n" "b = int B" 
    using assms by (metis nat_0_le less_imp_le)
  have "int n div int B = int (n div B)" "int n mod int B = int (n mod B)"
    by (simp_all add: zdiv_int zmod_int)
  then show ?thesis unfolding nB by (simp del: of_nat_div of_nat_mod add: nat_add_distrib)
qed

lemma batches_cover:
  fixes n B :: nat
  assumes "0 < B"
  defines "nb \<equiv> n div B + (if n mod B \<noteq> 0 then 1 else 0)"
  shows "n \<le> nb * B" and "i + 1 < nb \<Longrightarrow> (i + 1) * B \<le> n" and "0 < nb \<Longrightarrow> (nb - 1) * B < n"
    and "0 < n \<Longrightarrow> 0 < nb"
proof -
  have n: "n = n div B * B + n mod B" by simp
  show "n \<le> nb * B"
  proof (cases "n mod B = 0")
    case True
    then show ?thesis using n by (simp add: nb_def)
  next
    case False
    have "n mod B < B" using assms(1) by simp
    then have "n div B * B + n mod B < n div B * B + B" by (rule add_strict_left_mono)
    then have "n < n div B * B + B" by (simp only: div_mult_mod_eq)
    then show ?thesis using False by (simp add: nb_def)
  qed
  show "(i + 1) * B \<le> n" if "i + 1 < nb"
  proof -
    have "i + 1 \<le> n div B" using that by (simp add: nb_def split: if_splits)
    then have "(i + 1) * B \<le> n div B * B" by (rule mult_le_mono1)
    then show ?thesis using n by linarith
  qed
  show "(nb - 1) * B < n" if "0 < nb"
  proof (cases "n mod B = 0")
    case True
    then have nb: "nb = n div B" by (simp add: nb_def)
    then have "n = nb * B" using True n by simp
    moreover have "(nb - 1) * B < nb * B" using that assms(1) by simp
    ultimately show ?thesis by simp
  next
    case False
    then have "(nb - 1) * B = n div B * B" by (simp add: nb_def)
    then show ?thesis using False n by linarith
  qed
  show "0 < nb" if "0 < n"
  proof (cases "n mod B = 0")
    case True
    then have "n = n div B * B" using n by simp
    then have "0 < n div B" using that by (metis mult_0 neq0_conv)
    then show ?thesis by (simp add: nb_def)
  next
    case False
    then show ?thesis by (simp add: nb_def)
  qed
qed

subsection \<open>The chunks of a permutation\<close>

lemma batch_idx_chunk:
  assumes "0 < batch_size E"
  shows "batch_idx E perm i = take (nat (batch_size E)) (drop (i * nat (batch_size E)) perm)"
proof -
  define B where "B = nat (batch_size E)"
  have b: "batch_size E = int B" using assms by (simp add: B_def)
  have "int i * batch_size E = int (i * B)" "(int i + 1) * batch_size E = int ((i + 1) * B)"
    by (simp_all add: b algebra_simps)
  then have lo: "slice_index (length perm) (int i * batch_size E) = min (length perm) (i * B)"
    and hi: "slice_index (length perm) ((int i + 1) * batch_size E) = min (length perm) ((i + 1) * B)"
    by (simp_all only: slice_index_of_nat)
  show ?thesis
  proof (cases "i * B \<le> length perm")
    case True
    then have "min (length perm) ((i + 1) * B) - min (length perm) (i * B)
        = min (length perm - i * B) B"
      by (auto simp: min_def)
    moreover have "take (min (length perm - i * B) B) (drop (i * B) perm) = take B (drop (i * B) perm)"
      by (simp add: min_def)
    ultimately show ?thesis
      using True by (simp add: batch_idx_def slice_def Let_def lo hi flip: B_def)
  next
    case False
    then show ?thesis
      by (simp add: batch_idx_def slice_def Let_def lo hi flip: B_def)
  qed
qed

lemma length_batch_idx_le:
  assumes "0 < batch_size E"
  shows "length (batch_idx E perm i) \<le> nat (batch_size E)"
  by (simp add: batch_idx_chunk [OF assms])

lemma concat_chunks: "concat (map (\<lambda>i. take B (drop (i * B) xs)) [0..<k]) = take (k * B) xs"
proof (induction k)
  case 0
  then show ?case by simp
next
  case (Suc k)
  have "take (k * B) xs @ take B (drop (k * B) xs) = take (k * B + B) xs"
    by (simp add: take_add)
  with Suc show ?case by (simp add: add.commute)
qed

lemma env_chunks:
  assumes "0 < batch_size E" and "0 \<le> train_samples E"
    and "num_batches E = train_samples E div batch_size E
          + (if train_samples E mod batch_size E \<noteq> 0 then 1 else 0)"
    and "length p = nat (train_samples E)"
  defines "nb \<equiv> nat (num_batches E)" and "B \<equiv> nat (batch_size E)"
  shows "concat (map (batch_idx E p) [0..<nb]) = p"
    and "i + 1 < nb \<Longrightarrow> length (batch_idx E p i) = B"
    and "i + 1 = nb \<Longrightarrow> 0 < length (batch_idx E p i) \<and> length (batch_idx E p i) \<le> B"
    and "0 < train_samples E \<Longrightarrow> 0 < num_batches E"
proof -
  define n where "n = nat (train_samples E)"
  have B: "0 < B" using assms(1) by (simp add: B_def)
  have nb: "nb = n div B + (if n mod B \<noteq> 0 then 1 else 0)"
    unfolding nb_def n_def B_def assms(3) using assms(2,1) by (rule num_batches_nat)
  note cover = batches_cover [OF B, where n = n, folded nb]
  have idx: "batch_idx E p j = take B (drop (j * B) p)" for j
    unfolding B_def using assms(1) by (rule batch_idx_chunk)
  have len: "length (batch_idx E p j) = min (n - j * B) B" for j
    by (simp add: idx assms(4) n_def)
  have "batch_idx E p = (\<lambda>j. take B (drop (j * B) p))"
    by (rule ext) (rule idx)
  then have "concat (map (batch_idx E p) [0..<nb]) = take (nb * B) p"
    by (simp only: concat_chunks)
  then show "concat (map (batch_idx E p) [0..<nb]) = p"
    using cover(1) by (simp add: assms(4) n_def)
  show "length (batch_idx E p i) = B" if "i + 1 < nb"
    using cover(2) [OF that] by (simp add: len)
  show "0 < length (batch_idx E p i) \<and> length (batch_idx E p i) \<le> B" if "i + 1 = nb"
  proof -
    have "0 < nb" "i = nb - 1" using that by simp_all
    then have "i * B < n" using cover(3) by simp
    then show ?thesis using B by (simp add: len)
  qed
  show "0 < num_batches E" if "0 < train_samples E"
  proof -
    have "0 < n" using that by (simp add: n_def)
    then have "0 < nb" by (rule cover(4))
    then show ?thesis by (simp add: nb_def)
  qed
qed

lemma take_rows_Inr: "take_rows arr idx = Inr rows \<Longrightarrow> rows = map (nth arr) idx"
  by (auto simp: take_rows_def split: if_splits)

lemma take_rows_in_range:
  "set idx \<subseteq> {..<length arr} \<Longrightarrow> take_rows arr idx = Inr (map (nth arr) idx)"
  by (auto simp: take_rows_def list_all_iff)

lemma yield_value_Inr:
  assumes "yield_value E perm i = Inr (x, y)"
  shows "x = map (nth (train_images E)) (batch_idx E perm i)"
    and "y = map (nth (train_labels E)) (batch_idx E perm i)"
  using assms by (auto simp: yield_value_def split: sum.splits dest: take_rows_Inr)

lemma yield_value_in_range:
  assumes "set perm \<subseteq> {..<length (train_images E)}" "set perm \<subseteq> {..<length (train_labels E)}"
  shows "yield_value E perm i =
    Inr (map (nth (train_images E)) (batch_idx E perm i), map (nth (train_labels E)) (batch_idx E perm i))"
proof -
  have "set (batch_idx E perm i) \<subseteq> set perm"
    unfolding batch_idx_def by (rule set_slice_subset)
  then show ?thesis
    using assms by (simp add: yield_value_def take_rows_in_range subset_trans)
qed

lemma at_yield_Inr:
  "at_yield E rng perm i = (Inr b, g') \<Longrightarrow> yield_value E perm i = Inr b"
  by (auto simp: at_yield_def split: sum.splits)

subsection \<open>The generator\<close>

lemma while_true_yields:
  "0 < num_batches E \<Longrightarrow>
   while_true R E rng =
     Some (at_yield E (snd (permutation R rng (train_samples E)))
       (fst (permutation R rng (train_samples E))) 0)"
  by (subst while_true.simps) (simp add: case_prod_beta)

text \<open>
  The \<open>while\<close> loop reaches a \<open>yield\<close> only when there is a batch to a pass; with
  \<open>num_batches \<le> 0\<close> (an empty training set, or a negative batch size) it draws
  permutations for ever and \<open>next\<close> does not return.
\<close>

lemma while_true_returns:
  assumes "while_true R E rng = Some y"
  shows "0 < num_batches E"
  by (rule while_true.raw_induct [where P = "\<lambda>_ E _ _. 0 < num_batches E", OF _ assms])
     (auto simp: case_prod_beta split: if_splits)

lemma while_true_diverges:
  assumes "num_batches E \<le> 0"
  shows "while_true R E rng = None"
proof (cases "while_true R E rng")
  case (Some y)
  then show ?thesis using while_true_returns [OF Some] assms by simp
qed simp


lemma next_batch_Inr:
  assumes "next_batch R E g = Some (Inr b, g')"
  shows "\<exists>perm i. yield_value E perm i = Inr b"
proof (cases g)
  case Created
  then have w: "while_true R E (RandomState R 0) = Some (Inr b, g')"
    using assms by (simp add: next_batch_def)
  then have "0 < num_batches E" by (rule while_true_returns)
  then show ?thesis using w by (auto simp: while_true_yields dest: at_yield_Inr)
next
  case (Suspended rng perm i)
  show ?thesis
  proof (cases "int i + 1 < num_batches E")
    case True
    then show ?thesis using assms Suspended by (auto simp: next_batch_def dest: at_yield_Inr)
  next
    case False
    then have w: "while_true R E rng = Some (Inr b, g')"
      using assms Suspended by (simp add: next_batch_def)
    then have "0 < num_batches E" by (rule while_true_returns)
    then show ?thesis using w by (auto simp: while_true_yields dest: at_yield_Inr)
  qed
next
  case Finished
  then show ?thesis using assms by (simp add: next_batch_def)
qed

text \<open>
  With \<open>num_batches > 0\<close> and no fault of the indexing, batch number \<open>m\<close> of a
  generator is chunk \<open>m mod num_batches\<close> of the permutation of pass
  \<open>m div num_batches\<close>.
\<close>

lemma next_stream_state:
  assumes nb: "0 < num_batches E" and ok: "stream_value R E m = Inr b"
  shows "next_batch R E (stream_state R E m) = Some (Inr b, stream_state R E (Suc m))"
proof (cases m)
  case 0
  then show ?thesis
    using nb ok
    by (simp add: stream_state_def stream_value_def next_batch_def while_true_yields
        at_yield_def epoch_perm_def)
next
  case (Suc k)
  define B where "B = nat (num_batches E)"
  have B: "0 < B" "num_batches E = int B" using nb by (simp_all add: B_def)
  show ?thesis
  proof (cases "Suc (k mod B) = B")
    case True
    then have "Suc k mod B = 0" "Suc k div B = Suc (k div B)"
      by (simp_all add: mod_Suc div_Suc)
    then show ?thesis
      using True nb ok Suc B
      by (simp add: stream_state_def stream_value_def next_batch_def while_true_yields
          at_yield_def epoch_perm_def flip: B_def)
  next
    case False
    then have "Suc k mod B = Suc (k mod B)" "Suc k div B = k div B"
      by (simp_all add: mod_Suc div_Suc)
    moreover have "Suc (k mod B) < B"
      using False B(1) by (metis Suc_lessI mod_less_divisor)
    ultimately show ?thesis
      using nb ok Suc B
      by (simp add: stream_state_def stream_value_def next_batch_def 
          at_yield_def epoch_perm_def flip: B_def)
  qed
qed

lemma next_batches_stream:
  assumes nb: "0 < num_batches E" and ok: "\<And>j. \<exists>b. stream_value R E j = Inr b"
  shows "next_batches R E k (stream_state R E m) =
     Some (map (stream_value R E) [m..<m + k], stream_state R E (m + k))"
proof (induction k arbitrary: m)
  case 0
  then show ?case by simp
next
  case (Suc k)
  obtain b where b: "stream_value R E m = Inr b" using ok by blast
  have "[m..<m + Suc k] = m # [Suc m..<Suc m + k]"
    by (simp add: upt_conv_Cons)
  then show ?case
    using next_stream_state [OF nb b] Suc.IH [of "Suc m"] b by simp
qed

lemma nth_batch_stream:
  assumes "0 < num_batches E" and "\<And>j. \<exists>b. stream_value R E j = Inr b"
  shows "nth_batch R E m = Some (stream_value R E m)"
proof -
  have "next_batches R E (Suc m) (stream_state R E 0) =
      Some (map (stream_value R E) [0..<0 + Suc m], stream_state R E (0 + Suc m))"
    using assms by (rule next_batches_stream)
  then show ?thesis
    by (simp add: nth_batch_def data_stream_def stream_state_def)
qed

lemma epoch_perm_mset:
  assumes "permutes R" "0 \<le> n"
  shows "mset (epoch_perm R n e) = mset [0..<nat n]"
  using assms by (simp add: permutes_def epoch_perm_def)

lemma epoch_perm_set:
  assumes "permutes R" "0 \<le> n"
  shows "set (epoch_perm R n e) = {..<nat n}" and "length (epoch_perm R n e) = nat n"
proof -
  note m = epoch_perm_mset [OF assms, of e]
  show "set (epoch_perm R n e) = {..<nat n}"
    using mset_eq_setD [OF m] by (simp add: atLeast0LessThan)
  show "length (epoch_perm R n e) = nat n"
    using mset_eq_length [OF m] by simp
qed

lemma stream_value_ok:
  assumes "permutes R" "0 \<le> train_samples E"
    and "length (train_images E) = nat (train_samples E)"
    and "length (train_labels E) = nat (train_samples E)"
  shows "stream_value R E m =
    Inr (map (nth (train_images E)) (batch_idx E (epoch_perm R (train_samples E) (m div nat (num_batches E))) (m mod nat (num_batches E))),
         map (nth (train_labels E)) (batch_idx E (epoch_perm R (train_samples E) (m div nat (num_batches E))) (m mod nat (num_batches E))))"
  unfolding stream_value_def
  by (rule yield_value_in_range) (simp_all add: epoch_perm_set [OF assms(1,2)] assms(3,4))







subsection \<open>Sessions\<close>









subsection \<open>The example library and dataset\<close>

lemma mset_rotate_eq: "mset (rotate k xs) = mset xs"
proof -
  have "mset (rotate k xs) = mset (take (k mod length xs) xs @ drop (k mod length xs) xs)"
    by (simp add: rotate_drop_take del: append_take_drop_id)
  then show ?thesis by simp
qed

lemma permutes_rotating: "permutes rotating"
  by (simp add: permutes_def rotating_def mset_rotate_eq del: rotate_Suc mset_upt)

lemma example_first_batch:
  "next_batch rotating example_env data_stream =
     Some (Inr ([11, 12], [21, 22]), Suspended 1 [1, 2, 0] 0)"
  by code_simp

lemma example_epoch_perm: "epoch_perm rotating 3 1 = [2, 0, 1]"
  by code_simp

lemma example_batch_idx:
  "batch_idx example_env [2, 0, 1] 0 = [2, 0]" "batch_idx example_env [2, 0, 1] 1 = [1]"
  by code_simp+

lemma example_sixth_batch: "nth_batch rotating example_env 5 = Some (Inr ([12], [22]))"
  by code_simp



subsection \<open>Arrays and the two metrics\<close>









lemma one_hot_nonneg: "one_hot row \<Longrightarrow> list_all (\<lambda>v. 0 \<le> v) row"
  by (auto simp: one_hot_def list_all_iff)









lemma member_le_sum_list_real:
  fixes xs :: "real list"
  assumes "x \<in> set xs" "\<And>y. y \<in> set xs \<Longrightarrow> 0 \<le> y"
  shows "x \<le> sum_list xs"
  using assms
proof (induction xs)
  case Nil
  then show ?case by simp
next
  case (Cons y ys)
  have "0 \<le> sum_list ys" using Cons.prems(2) by (intro sum_list_nonneg) simp
  then show ?case using Cons by (auto simp: add_increasing2 add_increasing)
qed

text \<open>
  The output layer: no entry of a log-softmax row exceeds 0, so the predictions of
  \<open>forward_pass\<close> are at most 0 whatever the linear layers compute.
\<close>

lemma log_softmax_row_nonpos: "list_all (\<lambda>v. v \<le> 0) (log_softmax_row row)"
proof -
  define shifted where "shifted = map (\<lambda>v. v - Max (set row)) row"
  have "v - ln (sum_list (map exp shifted)) \<le> 0" if "v \<in> set shifted" for v
  proof -
    have "exp v \<le> sum_list (map exp shifted)"
      using that by (intro member_le_sum_list_real) auto
    then have "ln (exp v) \<le> ln (sum_list (map exp shifted))"
      by (subst ln_le_cancel_iff) (auto intro: less_le_trans [OF exp_gt_zero])
    then show ?thesis by simp
  qed
  then show ?thesis
    by (simp add: log_softmax_row_def Let_def list_all_iff flip: shifted_def)
qed

lemma forward_pass_nonpos:
  "list_all (list_all (\<lambda>v. v \<le> 0)) (forward_pass lin lin_1 lin_2 params x)"
  by (simp add: forward_pass_def log_softmax_def list_all_iff)
     (use log_softmax_row_nonpos in \<open>auto simp: list_all_iff\<close>)





section \<open>The claims\<close>

subsection \<open>C1: restarting the generator\<close>



subsection \<open>C2: the sizes of the startup split\<close>




subsection \<open>C3: the two arrays of a batch\<close>

text \<open>
  C3: for every batch size of at least 1 and every batch a generator yields, from
  whatever state it is resumed in, the image array and the label array have the same
  number of rows, and at most \<open>batch_size\<close> of them.
\<close>

theorem batch_rows_match:
  assumes "next_batch R E g = Some (Inr (x, y), g')" and "1 \<le> batch_size E"
  shows "length x = length y \<and> int (length x) \<le> batch_size E"
proof -
  obtain perm i where y: "yield_value E perm i = Inr (x, y)"
    using next_batch_Inr [OF assms(1)] by blast
  have "length (batch_idx E perm i) \<le> nat (batch_size E)"
    using assms(2) by (intro length_batch_idx_le) simp
  then show ?thesis
    using yield_value_Inr [OF y] assms(2) by simp
qed

text \<open>The first batch of a generator over the example dataset.\<close>

theorem batch_rows_match_witness:
  "next_batch rotating example_env data_stream =
     Some (Inr ([11, 12], [21, 22]), Suspended 1 [1, 2, 0] 0)
   \<and> 1 \<le> batch_size example_env
   \<and> length [11, 12 :: nat] = length [21, 22 :: nat]
   \<and> int (length [11, 12 :: nat]) \<le> batch_size example_env"
proof -
  have b: "1 \<le> batch_size example_env" by (simp add: example_env_def)
  show ?thesis
    using example_first_batch b batch_rows_match [OF example_first_batch b] by simp
qed

subsection \<open>C4: one pass of the generator\<close>

text \<open>
  C4: with a batch size of at least 1, a validation fraction between 0 and 1 and a
  library whose \<open>permutation(n)\<close> rearranges \<open>0, \<dots>, n - 1\<close>, pass \<open>e\<close> of a generator
  (for every \<open>e\<close>) uses the permutation \<open>p\<close> of its own, the \<open>e\<close>-th the generator
  draws, of the training indices; \<open>num_batches\<close> is \<open>\<lceil>train_samples / batch_size\<rceil>\<close>;
  batch \<open>i\<close> of the pass holds the training rows at the contiguous chunk
  \<open>p[i * batch_size : (i + 1) * batch_size]\<close>; the chunks of the pass put together are
  \<open>p\<close>, so every training index is in exactly one batch of the pass, once; every chunk
  but the last has \<open>batch_size\<close> indices, and the last has between 1 and
  \<open>batch_size\<close>.
\<close>

theorem epoch_covers_training_set:
  assumes "dataset_cell H images labels = Inr E"
    and "1 \<le> batch_size H" and "0 \<le> validation_split H" and "validation_split H \<le> 1"
    and "length images < 2 ^ 53" and "length labels = length images"
    and "permutes R"
  shows "let nb = nat (num_batches E); B = nat (batch_size E);
             p = epoch_perm R (train_samples E) e in
      num_batches E = \<lceil>(of_int (train_samples E) :: rat) / of_int (batch_size E)\<rceil>
    \<and> mset p = mset [0..<length (train_images E)]
    \<and> concat (map (batch_idx E p) [0..<nb]) = p
    \<and> (\<forall>i<nb. batch_idx E p i = take B (drop (i * B) p))
    \<and> (\<forall>i<nb. nth_batch R E (e * nb + i) =
          Some (Inr (map (nth (train_images E)) (batch_idx E p i),
                     map (nth (train_labels E)) (batch_idx E p i))))
    \<and> (\<forall>i<nb. i + 1 < nb \<longrightarrow> length (batch_idx E p i) = B)
    \<and> (\<forall>i<nb. i + 1 = nb \<longrightarrow>
          0 < length (batch_idx E p i) \<and> length (batch_idx E p i) \<le> B)"
proof -
  define nb where "nb = nat (num_batches E)"
  define B where "B = nat (batch_size E)"
  define p where "p = epoch_perm R (train_samples E) e"
  have b0: "batch_size H \<noteq> 0" using assms(2) by simp
  note env = env_of_cell [OF assms(1) b0 assms(3-6)]
  have b: "0 < batch_size E" using env(1) assms(2) by simp
  have p_len: "length p = nat (train_samples E)"
    unfolding p_def using assms(7) env(2) by (rule epoch_perm_set)
  note ch = env_chunks [OF b env(2,5) p_len, folded nb_def B_def]
  have 1: "num_batches E = \<lceil>(of_int (train_samples E) :: rat) / of_int (batch_size E)\<rceil>"
    unfolding env(5) using b by (rule num_batches_ceiling)
  have 2: "mset p = mset [0..<length (train_images E)]"
    unfolding p_def env(3) using assms(7) env(2) by (rule epoch_perm_mset)
  have 4: "batch_idx E p i = take B (drop (i * B) p)" for i
    unfolding B_def using b by (rule batch_idx_chunk)
  have 5: "nth_batch R E (e * nb + i) =
          Some (Inr (map (nth (train_images E)) (batch_idx E p i),
                     map (nth (train_labels E)) (batch_idx E p i)))" if "i < nb" for i
  proof -
    have nb: "0 < num_batches E" using that by (simp add: nb_def)
    have ok: "\<exists>b. stream_value R E j = Inr b" for j
      using stream_value_ok [OF assms(7) env(2,3,4)] by blast
    have "(e * nb + i) div nb = e" "(e * nb + i) mod nb = i" using that by simp_all
    then show ?thesis
      unfolding nth_batch_stream [OF nb ok] stream_value_ok [OF assms(7) env(2,3,4)]
      by (simp add: nb_def [symmetric] p_def)
  qed
  show ?thesis
    unfolding Let_def nb_def [symmetric] B_def [symmetric] p_def [symmetric]
    using 1 2 ch(1) 4 5 ch(2,3) by blast
qed

text \<open>The second pass (\<open>e = 1\<close>) over the example dataset.\<close>

theorem epoch_covers_training_set_witness:
  "dataset_cell example_hyper [10, 11, 12, 13] [20, 21, 22, 23] = Inr example_env
   \<and> permutes rotating
   \<and> num_batches example_env = \<lceil>(3 :: rat) / 2\<rceil>
   \<and> epoch_perm rotating 3 1 = [2, 0, 1]
   \<and> mset [2, 0, 1] = mset [0..<length [10, 11, 12 :: nat]]
   \<and> concat [[2, 0], [1 :: nat]] = [2, 0, 1]
   \<and> nth_batch rotating example_env 2 = Some (Inr ([12, 10], [22, 20]))
   \<and> nth_batch rotating example_env 3 = Some (Inr ([11], [21]))"
proof -
  have h: "1 \<le> batch_size example_hyper" "0 \<le> validation_split example_hyper"
    "validation_split example_hyper \<le> 1" "length [10, 11, 12, 13 :: nat] < 2 ^ 53"
    "length [20, 21, 22, 23 :: nat] = length [10, 11, 12, 13 :: nat]"
    by (simp_all add: example_hyper_def)
  have env: "num_batches example_env = 2" "batch_size example_env = 2"
    "train_samples example_env = 3" "train_images example_env = [10, 11, 12]"
    "train_labels example_env = [20, 21, 22]"
    by (simp_all add: example_env_def)
  note t = epoch_covers_training_set [OF example_cell h permutes_rotating, of 1,
      unfolded Let_def env example_epoch_perm]
  have n1: "num_batches example_env = \<lceil>(3 :: rat) / 2\<rceil>"
    using t [THEN conjunct1] by (simp add: env)
  have n2: "mset [2, 0, 1] = mset [0..<length [10, 11, 12 :: nat]]"
    using t [THEN conjunct2, THEN conjunct1] .
  note a = t [THEN conjunct2, THEN conjunct2, THEN conjunct2, THEN conjunct2, THEN conjunct1,
      rule_format]
  have "nth_batch rotating example_env 2 = Some (Inr ([12, 10], [22, 20]))"
    using a [of 0, unfolded example_batch_idx] by simp
  moreover have "nth_batch rotating example_env 3 = Some (Inr ([11], [21]))"
    using a [of 1, unfolded example_batch_idx] by simp
  ultimately have "nth_batch rotating example_env 2 = Some (Inr ([12, 10], [22, 20]))"
    "nth_batch rotating example_env 3 = Some (Inr ([11], [21]))"
    by simp_all
  then show ?thesis
    using example_cell permutes_rotating n1 n2 example_epoch_perm by (simp del: mset_upt)
qed

subsection \<open>C5: the cross-entropy loss\<close>



subsection \<open>C6: the accuracy\<close>



subsection \<open>C7: the loss is not negative\<close>



subsection \<open>C8: the metrics are pure\<close>



subsection \<open>C9: the stream does not end\<close>

text \<open>
  C9: when the training set is not empty (with a batch size of at least 1, a
  validation fraction between 0 and 1 and a library whose \<open>permutation(n)\<close> rearranges
  \<open>0, \<dots>, n - 1\<close>), the request for batch number \<open>n\<close> of a generator returns, and
  returns a batch, for every \<open>n\<close>: the generator never finishes and no \<open>next\<close> runs
  forever, so only the caller, the training loop with its \<open>num_epochs * num_batches\<close>
  calls, bounds how many batches are consumed.  (With an empty training set no \<open>next\<close>
  returns: lemma \<open>while_true_diverges\<close>.)
\<close>

theorem stream_never_ends:
  assumes "dataset_cell H images labels = Inr E"
    and "1 \<le> batch_size H" and "0 \<le> validation_split H" and "validation_split H \<le> 1"
    and "length images < 2 ^ 53" and "length labels = length images"
    and "permutes R" and "train_images E \<noteq> []"
  shows "\<exists>x y. nth_batch R E n = Some (Inr (x, y))"
proof -
  have b0: "batch_size H \<noteq> 0" using assms(2) by simp
  note env = env_of_cell [OF assms(1) b0 assms(3-6)]
  have b: "0 < batch_size E" using env(1) assms(2) by simp
  have t: "0 < train_samples E" using env(2,3) assms(8) by (cases "train_samples E = 0") auto
  have "length (epoch_perm R (train_samples E) 0) = nat (train_samples E)"
    using assms(7) env(2) by (rule epoch_perm_set)
  from env_chunks(4) [OF b env(2,5) this t]
  have nb: "0 < num_batches E" .
  note ok = stream_value_ok [OF assms(7) env(2,3,4)]
  have "\<exists>b. stream_value R E j = Inr b" for j using ok by blast
  then have "nth_batch R E n = Some (stream_value R E n)"
    using nb by (intro nth_batch_stream)
  then show ?thesis unfolding ok by blast
qed

text \<open>The sixth batch over the example dataset.\<close>

theorem stream_never_ends_witness:
  "dataset_cell example_hyper [10, 11, 12, 13] [20, 21, 22, 23] = Inr example_env
   \<and> permutes rotating \<and> train_images example_env \<noteq> []
   \<and> (\<exists>x y. nth_batch rotating example_env 5 = Some (Inr (x, y)))
   \<and> nth_batch rotating example_env 5 = Some (Inr ([12], [22]))"
proof -
  have h: "1 \<le> batch_size example_hyper" "0 \<le> validation_split example_hyper"
    "validation_split example_hyper \<le> 1" "length [10, 11, 12, 13 :: nat] < 2 ^ 53"
    "length [20, 21, 22, 23 :: nat] = length [10, 11, 12, 13 :: nat]"
    by (simp_all add: example_hyper_def)
  have ne: "train_images example_env \<noteq> []" by (simp add: example_env_def)
  show ?thesis
    using stream_never_ends [OF example_cell h permutes_rotating ne, of 5]
      example_cell permutes_rotating ne example_sixth_batch
    by simp
qed

subsection \<open>C10: every generator yields the same sequence\<close>



end
